theory Spec2Isabelle
  imports Complex_Main "HOL-Library.Multiset" "HOL-Library.Log_Nat"
begin

section \<open>Floats and arrays of the notebooks\<close>

text \<open>
  The notebooks compute with Python floats and one-dimensional numpy arrays of
  \<^verbatim>\<open>float64\<close>, both IEEE 754 binary64. A float is modelled as the real number it
  denotes, or as one of the three special values. Every arithmetic operation computes
  the exact result and rounds it to the nearest binary64 value, ties to the even
  significand; a result beyond the largest finite value becomes an infinity, a result
  below the smallest normal value is rounded on the subnormal grid and may become zero.
  numpy does not raise on overflow or on a division by zero: it returns \<^verbatim>\<open>inf\<close> or
  \<^verbatim>\<open>nan\<close> (and prints a warning), which then flow through the rest of the expression.
  The two zeros \<^verbatim>\<open>0.0\<close> and \<^verbatim>\<open>-0.0\<close>, which compare equal in Python, are not told apart,
  and a zero divisor counts as \<^verbatim>\<open>+0.0\<close>; the sign of an infinite quotient is lost in
  the square that follows it in the code. The floats are the reals that rounding
  leaves unchanged; a statement about all reals holds for them.
\<close>

datatype npfloat = Finite real | PInf | NInf | NaN

text \<open>Python exceptions the modelled code can raise.\<close>

datatype py_error = ZeroDivisionError | OverflowError | ValueError

subsection \<open>Rounding to binary64\<close>

text \<open>The nearest integer, a tie going to the even one.\<close>

definition round_half_even :: "real \<Rightarrow> int" where
  "round_half_even m =
     (let f = \<lfloor>m\<rfloor>; d = m - of_int f
      in if d < 1 / 2 then f else if 1 / 2 < d then f + 1 else if even f then f else f + 1)"

text \<open>
  The binary exponent of a positive real \<open>a\<close>: the integer \<open>e\<close> with
  \<open>2\<^sup>e \<le> a < 2\<^sup>e\<^sup>+\<^sup>1\<close>, computed from the number of bits of an integer.
\<close>

definition exponent :: "real \<Rightarrow> int" where
  "exponent a = (if 1 \<le> a then bitlen \<lfloor>a\<rfloor> - 1 else - bitlen (\<lceil>1 / a\<rceil> - 1))"

text \<open>
  Rounding a real to binary64. A magnitude of at least \<open>2\<^sup>1\<^sup>0\<^sup>2\<^sup>4 - 2\<^sup>9\<^sup>7\<^sup>0\<close>, half
  way between the largest finite value and \<open>2\<^sup>1\<^sup>0\<^sup>2\<^sup>4\<close>, overflows. Below that the
  significand has 53 bits: the spacing of the values around \<open>a\<close> is
  \<open>2\<^sup>e\<^sup>-\<^sup>5\<^sup>2\<close> for the exponent \<open>e\<close> of \<open>a\<close>, and \<open>2\<^sup>-\<^sup>1\<^sup>0\<^sup>7\<^sup>4\<close> for subnormal values.
\<close>

definition round64 :: "real \<Rightarrow> npfloat" where
  "round64 x =
     (let a = \<bar>x\<bar> in
      if a = 0 then Finite 0
      else if 2 ^ 1024 - 2 ^ 970 \<le> a then (if 0 < x then PInf else NInf)
      else
        let q = 2 powi (max (exponent a) (- 1022) - 52)
        in Finite (sgn x * (of_int (round_half_even (a / q)) * q)))"

subsection \<open>Arithmetic\<close>

fun np_neg :: "npfloat \<Rightarrow> npfloat" where
  "np_neg (Finite a) = Finite (- a)"
| "np_neg PInf = NInf"
| "np_neg NInf = PInf"
| "np_neg NaN = NaN"

fun np_add :: "npfloat \<Rightarrow> npfloat \<Rightarrow> npfloat" where
  "np_add (Finite a) (Finite b) = round64 (a + b)"
| "np_add NaN _ = NaN"
| "np_add _ NaN = NaN"
| "np_add PInf NInf = NaN"
| "np_add NInf PInf = NaN"
| "np_add PInf _ = PInf"
| "np_add _ PInf = PInf"
| "np_add NInf _ = NInf"
| "np_add _ NInf = NInf"

definition np_sub :: "npfloat \<Rightarrow> npfloat \<Rightarrow> npfloat" where
  "np_sub a b = np_add a (np_neg b)"

text \<open>The infinity with the sign of a non-zero real; \<^verbatim>\<open>nan\<close> for zero.\<close>

definition inf_of_sign :: "real \<Rightarrow> npfloat" where
  "inf_of_sign s = (if 0 < s then PInf else if s < 0 then NInf else NaN)"

fun np_mul :: "npfloat \<Rightarrow> npfloat \<Rightarrow> npfloat" where
  "np_mul (Finite a) (Finite b) = round64 (a * b)"
| "np_mul NaN _ = NaN"
| "np_mul _ NaN = NaN"
| "np_mul PInf (Finite b) = inf_of_sign b"
| "np_mul NInf (Finite b) = inf_of_sign (- b)"
| "np_mul (Finite a) PInf = inf_of_sign a"
| "np_mul (Finite a) NInf = inf_of_sign (- a)"
| "np_mul PInf PInf = PInf"
| "np_mul NInf NInf = PInf"
| "np_mul PInf NInf = NInf"
| "np_mul NInf PInf = NInf"

text \<open>
  \<^verbatim>\<open>numpy.true_divide\<close> on floats: a finite value over zero is an infinity with the
  sign of the dividend, zero over zero and infinity over infinity are \<^verbatim>\<open>nan\<close>.
\<close>

fun np_div :: "npfloat \<Rightarrow> npfloat \<Rightarrow> npfloat" where
  "np_div (Finite a) (Finite b) = (if b = 0 then inf_of_sign a else round64 (a / b))"
| "np_div NaN _ = NaN"
| "np_div _ NaN = NaN"
| "np_div (Finite a) PInf = Finite 0"
| "np_div (Finite a) NInf = Finite 0"
| "np_div PInf (Finite b) = (if 0 \<le> b then PInf else NInf)"
| "np_div NInf (Finite b) = (if 0 \<le> b then NInf else PInf)"
| "np_div PInf PInf = NaN"
| "np_div PInf NInf = NaN"
| "np_div NInf PInf = NaN"
| "np_div NInf NInf = NaN"

text \<open>\<^verbatim>\<open>a ** 2\<close> on a float array: numpy squares each element.\<close>

definition np_square :: "npfloat \<Rightarrow> npfloat" where
  "np_square a = np_mul a a"

text \<open>
  A binary operator on two one-dimensional arrays. numpy broadcasts: arrays of equal
  length are combined element by element, an array of length one is stretched to the
  other's length, and any other pair of lengths raises \<^verbatim>\<open>ValueError\<close>.
\<close>

definition np_binary ::
  "(npfloat \<Rightarrow> npfloat \<Rightarrow> npfloat) \<Rightarrow> npfloat list \<Rightarrow> npfloat list \<Rightarrow> py_error + npfloat list" where
  "np_binary f xs ys =
     (if length xs = length ys then Inr (map2 f xs ys)
      else if length xs = 1 then Inr (map (f (hd xs)) ys)
      else if length ys = 1 then Inr (map (\<lambda>x. f x (hd ys)) xs)
      else Inl ValueError)"

text \<open>
  Python's builtin \<^verbatim>\<open>sum\<close>: it starts from \<^verbatim>\<open>0\<close> and adds the elements from left to
  right, one rounded addition after the other. (The elements of a \<^verbatim>\<open>float64\<close> array are
  numpy scalars, for which \<^verbatim>\<open>sum\<close> has no compensated fast path.)
\<close>

definition py_sum :: "npfloat list \<Rightarrow> npfloat" where
  "py_sum xs = foldl np_add (Finite 0) xs"

text \<open>
  A Python integer as the operand of a float operation: it is converted to the
  nearest float, and \<^verbatim>\<open>OverflowError\<close> is raised when it is too large for one.
\<close>

definition float_of_int :: "int \<Rightarrow> py_error + real" where
  "float_of_int n = (case round64 (of_int n) of Finite f \<Rightarrow> Inr f | _ \<Rightarrow> Inl OverflowError)"

section \<open>The reduced chi-square of both notebooks\<close>

text \<open>
  \<^verbatim>\<open>
  def calc_reduced_chi_square(fit, x, y, yerr, N, n_free):
      return 1.0 / (N - n_free) * sum(((fit - y) / yerr) ** 2)
  \<close>
  \<^verbatim>\<open>N\<close> and \<^verbatim>\<open>n_free\<close> are Python integers (\<^verbatim>\<open>len(x1)\<close>, \<^verbatim>\<open>100\<close>, \<^verbatim>\<open>3\<close>, \<^verbatim>\<open>4\<close> at the call
  sites), so \<^verbatim>\<open>N - n_free\<close> is exact. The left operand of \<^verbatim>\<open>*\<close> is evaluated first:
  \<^verbatim>\<open>1.0 / (N - n_free)\<close> converts the integer to a float, which raises
  \<^verbatim>\<open>OverflowError\<close> when it is too large, and raises \<^verbatim>\<open>ZeroDivisionError\<close> when the
  float is zero. These errors come before any error of the array expression. The
  argument \<^verbatim>\<open>x\<close> is never read.
\<close>

definition calc_reduced_chi_square ::
  "npfloat list \<Rightarrow> npfloat list \<Rightarrow> npfloat list \<Rightarrow> npfloat list \<Rightarrow> int \<Rightarrow> int
     \<Rightarrow> py_error + npfloat" where
  "calc_reduced_chi_square fit x y yerr N n_free =
     (case float_of_int (N - n_free) of
        Inl e \<Rightarrow> Inl e
      | Inr f \<Rightarrow>
          if f = 0 then Inl ZeroDivisionError
          else case np_binary np_sub fit y of
            Inl e \<Rightarrow> Inl e
          | Inr d \<Rightarrow>
              (case np_binary np_div d yerr of
                 Inl e \<Rightarrow> Inl e
               | Inr q \<Rightarrow> Inr (np_mul (round64 (1 / f)) (py_sum (map np_square q)))))"

text \<open>
  Two arrays inside the call, for arrays of one length: the quotients
  \<^verbatim>\<open>(fit - y) / yerr\<close> and their squares, the array under the sum.
\<close>

definition chi_quotients :: "npfloat list \<Rightarrow> npfloat list \<Rightarrow> npfloat list \<Rightarrow> npfloat list" where
  "chi_quotients fit y yerr = map2 np_div (map2 np_sub fit y) yerr"

definition chi_terms :: "npfloat list \<Rightarrow> npfloat list \<Rightarrow> npfloat list \<Rightarrow> npfloat list" where
  "chi_terms fit y yerr = map np_square (chi_quotients fit y yerr)"

subsection \<open>The formula of the specification\<close>

text \<open>
  The specification gives the output as
  \<^verbatim>\<open>(1 / (n - freeParameterCount)) * SUM_{i=1..n} ((fitValues_i - observed_i) / uncertainty_i)^2\<close>.
  It is written down twice, to be compared with the code: once over the real numbers,
  and once in float arithmetic, every operation of the formula rounded and the sum
  taken from \<open>i = 1\<close> upwards.
\<close>

definition reduced_chi_square_formula ::
  "real list \<Rightarrow> real list \<Rightarrow> real list \<Rightarrow> int \<Rightarrow> int \<Rightarrow> real" where
  "reduced_chi_square_formula fitValues observed uncertainty n freeParameterCount =
     (1 / of_int (n - freeParameterCount)) *
       (\<Sum>i = 1..nat n.
          ((fitValues ! (i - 1) - observed ! (i - 1)) / uncertainty ! (i - 1))\<^sup>2)"

definition reduced_chi_square_ieee ::
  "npfloat list \<Rightarrow> npfloat list \<Rightarrow> npfloat list \<Rightarrow> int \<Rightarrow> int \<Rightarrow> npfloat" where
  "reduced_chi_square_ieee fitValues observed uncertainty n freeParameterCount =
     np_mul (np_div (Finite 1) (round64 (of_int (n - freeParameterCount))))
       (foldl np_add (Finite 0)
          (map (\<lambda>i. np_square (np_div (np_sub (fitValues ! (i - 1)) (observed ! (i - 1)))
                  (uncertainty ! (i - 1))))
             [1..<Suc (nat n)]))"

section \<open>The full custom model \<^verbatim>\<open>SineNew\<close>\<close>

text \<open>
  \<^verbatim>\<open>
  class SineNew(Fittable1DModel):
      a = Parameter(default=1.0)
      b = Parameter(default=1.0)
      c = Parameter(default=1.0)
      d = Parameter(default=1.0)

      @staticmethod
      def evaluate(x, a, b, c, d):
          return a * np.sin(b * x + c) + d

      @staticmethod
      def fit_deriv(x, a, b, c, d):
          d_a = np.sin(b * x + c)
          d_b = a * np.cos(b * x + c) * x
          d_c = a * np.cos(b * x + c)
          d_d = np.ones(x.shape)
          return [d_a, d_b, d_c, d_d]
  \<close>
  The derivative of a function is a notion of the real numbers, so the array \<^verbatim>\<open>x\<close> and
  the four parameters are real numbers here, and sine, cosine, sum and product are
  those of the real numbers.
\<close>

definition SineNew_evaluate :: "real list \<Rightarrow> real \<Rightarrow> real \<Rightarrow> real \<Rightarrow> real \<Rightarrow> real list" where
  "SineNew_evaluate x a b c d = map (\<lambda>xi. a * sin (b * xi + c) + d) x"

definition SineNew_fit_deriv ::
  "real list \<Rightarrow> real \<Rightarrow> real \<Rightarrow> real \<Rightarrow> real \<Rightarrow> real list list" where
  "SineNew_fit_deriv x a b c d =
     (let d_a = map (\<lambda>xi. sin (b * xi + c)) x;
          d_b = map (\<lambda>xi. a * cos (b * xi + c) * xi) x;
          d_c = map (\<lambda>xi. a * cos (b * xi + c)) x;
          d_d = replicate (length x) 1
      in [d_a, d_b, d_c, d_d])"

section \<open>Compound models\<close>

text \<open>
  The notebook builds compound models and reads their parameters
  (\<^verbatim>\<open>models.Gaussian1D(1, 6563, 10) + models.Polynomial1D(degree=1)\<close>,
  \<^verbatim>\<open>compound_fit.param_names\<close>, \<^verbatim>\<open>compound_fit.amplitude_0\<close>,
  \<^verbatim>\<open>compound_model_fixed.mean_0.fixed = True\<close>), but the classes behind these calls
  belong to the modelling library and are not among the sources. This section follows
  the data model of the specification instead.
\<close>

text \<open>
  Modelled from the spec: a parameter, which the sources do not define. It has a
  name, a current value, a default value, a \<open>fixed\<close> flag and optional bounds.
\<close>

record parameter =
  pname :: string
  pvalue :: npfloat
  pdefault :: npfloat
  pfixed :: bool
  pmin :: "npfloat option"
  pmax :: "npfloat option"

text \<open>
  Modelled from the spec: a model, which the sources do not define. It is an ordered
  sequence of parameters with an evaluate function of the parameter values and the
  samples. The function is given for one sample, so that the output has the length of
  the input. The optional derivative is left out.
\<close>

record model =
  params :: "parameter list"
  shape :: "npfloat list \<Rightarrow> npfloat \<Rightarrow> npfloat"

text \<open>
  Modelled from the spec: the combining operators of a compound model, which the
  sources do not define (\<open>+\<close>, \<open>-\<close>, \<open>\<times>\<close>, \<open>\<div>\<close> in the section on composition).
\<close>

datatype operator = Add | Subtract | Multiply | Divide

text \<open>
  Modelled from the spec: a parameter constructed with an initial value, which is also
  its default; it is free and unbounded until a caller constrains it.
\<close>

definition new_parameter :: "string \<Rightarrow> npfloat \<Rightarrow> parameter" where
  "new_parameter n v =
     \<lparr>pname = n, pvalue = v, pdefault = v, pfixed = False, pmin = None, pmax = None\<rparr>"

text \<open>Modelled from the spec: the names of a model's parameter sequence, in order.\<close>

definition param_names :: "model \<Rightarrow> string list" where
  "param_names m = map pname (params m)"

text \<open>Modelled from the spec: the current values of a model's parameters, in order.\<close>

definition param_values :: "model \<Rightarrow> npfloat list" where
  "param_values m = map pvalue (params m)"

text \<open>
  Modelled from the spec: evaluating a model on an array of samples, at its current
  parameter values; the output has one value per sample.
\<close>

definition evaluate :: "model \<Rightarrow> npfloat list \<Rightarrow> npfloat list" where
  "evaluate m x = map (shape m (param_values m)) x"

text \<open>
  Modelled from the spec: the linear shape of the scenario
  \<^verbatim>\<open>Linear(slope=2, intercept=1)\<close>, which evaluates to \<^verbatim>\<open>slope * x + intercept\<close>.
\<close>

definition Linear :: "npfloat \<Rightarrow> npfloat \<Rightarrow> model" where
  "Linear slope intercept =
     \<lparr>params = [new_parameter ''slope'' slope, new_parameter ''intercept'' intercept],
      shape = (\<lambda>ps x. np_add (np_mul (ps ! 0) x) (ps ! 1))\<rparr>"

text \<open>
  Modelled from the spec: an operator applied to two outputs. A division by zero
  propagates the IEEE value and does not raise, as the specification mandates.
\<close>

fun combine :: "operator \<Rightarrow> npfloat \<Rightarrow> npfloat \<Rightarrow> npfloat" where
  "combine Add u v = np_add u v"
| "combine Subtract u v = np_sub u v"
| "combine Multiply u v = np_mul u v"
| "combine Divide u v = np_div u v"

text \<open>Modelled from the spec: the child index of the suffix, in decimal digits.\<close>

fun string_of_nat :: "nat \<Rightarrow> string" where
  "string_of_nat n =
     (if n < 10 then [''0123456789'' ! n]
      else string_of_nat (n div 10) @ [''0123456789'' ! (n mod 10)])"

text \<open>
  Modelled from the spec: the renaming \<^verbatim>\<open><original>_<childIndex>\<close> of a child's parameter;
  nothing but the name changes.
\<close>

definition rename_param :: "nat \<Rightarrow> parameter \<Rightarrow> parameter" where
  "rename_param childIndex p = p\<lparr>pname := pname p @ ''_'' @ string_of_nat childIndex\<rparr>"

text \<open>
  Modelled from the spec: the explicit constructor of a compound model of two
  children, which the sources do not define. Its parameters are the children's,
  renamed, the first child's first. The compound is itself a model: its shape takes
  the concatenated parameter values, hands each child its own part and combines the
  two results with the operator.
\<close>

definition compose :: "operator \<Rightarrow> model \<Rightarrow> model \<Rightarrow> model" where
  "compose oper childA childB =
     \<lparr>params = map (rename_param 0) (params childA) @ map (rename_param 1) (params childB),
      shape = (\<lambda>ps x.
        combine oper
          (shape childA (take (length (params childA)) ps) x)
          (shape childB (drop (length (params childA)) ps) x))\<rparr>"

section \<open>Facts about rounding\<close>

subsection \<open>Powers of two and the binary exponent\<close>

lemma pow2_less_iff: "(2::real) powi m < 2 powi n \<longleftrightarrow> m < n"
proof
  assume h: "(2::real) powi m < 2 powi n"
  show "m < n"
  proof (rule ccontr)
    assume "\<not> m < n"
    then have "n \<le> m" by simp
    then have "(2::real) powi n \<le> 2 powi m" by (intro power_int_increasing) simp_all
    with h show False by simp
  qed
next
  assume "m < n"
  then show "(2::real) powi m < 2 powi n" by (intro power_int_strict_increasing) simp_all
qed

lemma pow2_le_iff: "(2::real) powi m \<le> 2 powi n \<longleftrightarrow> m \<le> n"
  using pow2_less_iff [of n m] by (simp add: not_less [symmetric])

lemma pow2_pos: "0 < (2::real) powi n"
  by simp

lemma pow2_Suc: "(2::real) powi (n + 1) = 2 * 2 powi n"
  by (simp add: power_int_add)

lemma pow2_nat: "0 \<le> k \<Longrightarrow> (2::real) powi k = 2 ^ nat k"
  by (simp add: power_int_def)

lemma pow2_neg: "0 \<le> k \<Longrightarrow> (2::real) powi (- k) = 1 / 2 ^ nat k"
  by (simp add: power_int_minus pow2_nat field_simps)

lemma exponent_bounds:
  assumes "0 < a"
  shows "2 powi exponent a \<le> a" and "a < 2 powi (exponent a + 1)"
proof -
  have "2 powi exponent a \<le> a \<and> a < 2 powi (exponent a + 1)"
  proof (cases "1 \<le> a")
    case True
    define n where "n = \<lfloor>a\<rfloor>"
    have n: "0 < n" using True by (simp add: n_def)
    have k: "1 \<le> bitlen n" using n by (simp add: bitlen_alt_def)
    from bitlen_bounds [OF n]
    have lo: "2 ^ nat (bitlen n - 1) \<le> n" and hi: "n < 2 ^ nat (bitlen n)" by simp_all
    have "(2::real) powi (bitlen n - 1) = of_int (2 ^ nat (bitlen n - 1))"
      using k by (simp add: pow2_nat)
    also have "\<dots> \<le> of_int n" using lo by (simp only: of_int_le_iff)
    also have "\<dots> \<le> a" by (simp add: n_def)
    finally have A: "2 powi (bitlen n - 1) \<le> a" .
    from hi have "n + 1 \<le> 2 ^ nat (bitlen n)" by simp
    then have "of_int (n + 1) \<le> (of_int (2 ^ nat (bitlen n)) :: real)"
      by (simp only: of_int_le_iff)
    moreover have "a < of_int (n + 1)" by (simp add: n_def)
    ultimately have "a < 2 ^ nat (bitlen n)" by simp
    then have B: "a < 2 powi (bitlen n - 1 + 1)"
      using k by (simp add: pow2_nat)
    from A B True show ?thesis by (simp add: exponent_def n_def)
  next
    case False
    define m where "m = \<lceil>1 / a\<rceil> - 1"
    have b: "1 < 1 / a" using False assms by simp
    then have m: "0 < m" by (simp add: m_def less_ceiling_iff)
    have k: "1 \<le> bitlen m" using m by (simp add: bitlen_alt_def)
    from bitlen_bounds [OF m]
    have lo: "2 ^ nat (bitlen m - 1) \<le> m" and hi: "m < 2 ^ nat (bitlen m)" by simp_all
    from hi have "m + 1 \<le> 2 ^ nat (bitlen m)" by simp
    then have "of_int (m + 1) \<le> (of_int (2 ^ nat (bitlen m)) :: real)"
      by (simp only: of_int_le_iff)
    moreover have "1 / a \<le> of_int (m + 1)" by (simp add: m_def)
    ultimately have "1 / a \<le> 2 ^ nat (bitlen m)" by simp
    then have "1 / 2 ^ nat (bitlen m) \<le> a"
      using assms by (simp add: field_simps)
    then have A: "2 powi (- bitlen m) \<le> a"
      using k by (simp add: pow2_neg)
    have "of_int m < 1 / a" by (simp add: m_def) linarith
    moreover have "(2::real) ^ nat (bitlen m - 1) \<le> of_int m"
    proof -
      have "(of_int (2 ^ nat (bitlen m - 1)) :: real) \<le> of_int m"
        using lo by (simp only: of_int_le_iff)
      then show ?thesis by simp
    qed
    ultimately have "2 ^ nat (bitlen m - 1) < 1 / a" by linarith
    then have "a < 1 / 2 ^ nat (bitlen m - 1)"
      using assms by (simp add: field_simps)
    moreover have "(2::real) powi (- bitlen m + 1) = 1 / 2 ^ nat (bitlen m - 1)"
      using pow2_neg [of "bitlen m - 1"] k by simp
    ultimately have B: "a < 2 powi (- bitlen m + 1)" by simp
    from A B False show ?thesis by (simp add: exponent_def m_def)
  qed
  then show "2 powi exponent a \<le> a" and "a < 2 powi (exponent a + 1)" by simp_all
qed

lemma exponent_unique:
  assumes "2 powi e \<le> a" "a < 2 powi (e + 1)"
  shows "exponent a = e"
proof -
  have a: "0 < a" using assms(1) pow2_pos [of e] by linarith
  note b = exponent_bounds [OF a]
  have "2 powi e < (2::real) powi (exponent a + 1)" using assms(1) b(2) by linarith
  then have 1: "e < exponent a + 1" by (simp only: pow2_less_iff)
  have "2 powi exponent a < (2::real) powi (e + 1)" using assms(2) b(1) by linarith
  then have 2: "exponent a < e + 1" by (simp only: pow2_less_iff)
  from 1 2 show ?thesis by simp
qed

lemma exponent_half:
  assumes "0 < a"
  shows "exponent (a / 2) = exponent a - 1"
proof (rule exponent_unique)
  note b = exponent_bounds [OF assms]
  have "(2::real) powi (exponent a - 1 + 1) = 2 * 2 powi (exponent a - 1)"
    by (rule pow2_Suc)
  then have h: "2 powi (exponent a - 1) = (2::real) powi exponent a / 2" by simp
  show "2 powi (exponent a - 1) \<le> a / 2" using b(1) h by simp
  show "a / 2 < 2 powi (exponent a - 1 + 1)" using b(2) pow2_Suc [of "exponent a"] by simp
qed

lemma exponent_pow2: "exponent (2 powi e) = e"
  by (rule exponent_unique) (simp_all add: pow2_less_iff)

subsection \<open>Rounding to an integer\<close>

lemma round_half_even_of_int: "round_half_even (of_int n) = n"
  by (simp add: round_half_even_def)

lemma round_half_even_ge:
  assumes "of_int k \<le> m"
  shows "k \<le> round_half_even m"
proof -
  have "k \<le> \<lfloor>m\<rfloor>" using assms by (simp add: le_floor_iff)
  then show ?thesis by (simp add: round_half_even_def Let_def)
qed

lemma round_half_even_le:
  assumes "m \<le> of_int k"
  shows "round_half_even m \<le> k"
proof (cases "m = of_int k")
  case True
  then show ?thesis by (simp add: round_half_even_of_int)
next
  case False
  with assms have "m < of_int k" by simp
  then have "\<lfloor>m\<rfloor> < k" by (simp add: floor_less_iff)
  then show ?thesis by (auto simp: round_half_even_def Let_def)
qed

lemma round_half_even_small: "0 \<le> m \<Longrightarrow> m < 1 / 2 \<Longrightarrow> round_half_even m = 0"
proof -
  assume a: "0 \<le> m" "m < 1 / 2"
  then have "\<lfloor>m\<rfloor> = 0" by (simp add: floor_eq_iff)
  with a show ?thesis by (simp add: round_half_even_def)
qed

lemma round_half_even_zero_imp:
  assumes "round_half_even m = 0" "0 \<le> m"
  shows "m \<le> 1 / 2"
proof (rule ccontr)
  assume "\<not> m \<le> 1 / 2"
  then have h: "1 / 2 < m" by simp
  show False
  proof (cases "m < 1")
    case True
    with h have "\<lfloor>m\<rfloor> = 0" by (simp add: floor_eq_iff)
    with h assms show False by (simp add: round_half_even_def)
  next
    case False
    then have "of_int 1 \<le> m" by simp
    from round_half_even_ge [OF this] assms show False by simp
  qed
qed

subsection \<open>Rounding to binary64\<close>

lemma round64_zero: "round64 0 = Finite 0"
  by (simp add: round64_def)

lemma round64_unfold:
  assumes "x \<noteq> 0" "\<bar>x\<bar> < 2 ^ 1024 - 2 ^ 970"
  shows "round64 x =
    Finite (sgn x * (of_int (round_half_even (\<bar>x\<bar> / 2 powi (max (exponent \<bar>x\<bar>) (- 1022) - 52))) *
      2 powi (max (exponent \<bar>x\<bar>) (- 1022) - 52)))"
  using assms by (simp add: round64_def Let_def)

lemma round64_Finite_bound:
  assumes "round64 x = Finite r"
  shows "\<bar>x\<bar> < 2 ^ 1024 - 2 ^ 970"
proof (rule ccontr)
  assume "\<not> \<bar>x\<bar> < 2 ^ 1024 - 2 ^ 970"
  then have "2 ^ 1024 - 2 ^ 970 \<le> \<bar>x\<bar>" by simp
  moreover from this have "\<bar>x\<bar> \<noteq> 0" by auto
  ultimately have "round64 x = (if 0 < x then PInf else NInf)"
    unfolding round64_def Let_def by (simp only: if_True if_False)
  with assms show False by (simp split: if_splits)
qed

lemma round64_is_Finite:
  assumes "\<bar>x\<bar> < 2 ^ 1024 - 2 ^ 970"
  shows "\<exists>r. round64 x = Finite r"
proof (cases "x = 0")
  case True
  then show ?thesis by (simp add: round64_zero)
next
  case False
  from round64_unfold [OF False assms] show ?thesis by blast
qed

lemma round64_sign:
  assumes "round64 x = Finite r"
  shows "0 \<le> x \<Longrightarrow> 0 \<le> r" and "x \<le> 0 \<Longrightarrow> r \<le> 0"
proof -
  have b: "\<bar>x\<bar> < 2 ^ 1024 - 2 ^ 970" using assms by (rule round64_Finite_bound)
  let ?q = "(2::real) powi (max (exponent \<bar>x\<bar>) (- 1022) - 52)"
  let ?n = "round_half_even (\<bar>x\<bar> / ?q)"
  have q: "0 < ?q" by simp
  have "of_int 0 \<le> \<bar>x\<bar> / ?q" using q by simp
  then have n: "0 \<le> ?n" by (rule round_half_even_ge)
  have nq: "0 \<le> of_int ?n * ?q" using n q by simp
  have r: "x \<noteq> 0 \<Longrightarrow> r = sgn x * (of_int ?n * ?q)"
    using round64_unfold [OF _ b] assms by simp
  have r0: "x = 0 \<Longrightarrow> r = 0" using assms by (simp add: round64_zero)
  show "0 \<le> x \<Longrightarrow> 0 \<le> r"
    using r r0 nq by (cases "x = 0") (simp_all add: sgn_if)
  show "x \<le> 0 \<Longrightarrow> r \<le> 0"
    using r r0 nq by (cases "x = 0") (simp_all add: sgn_if)
qed

lemma round64_abs:
  assumes "round64 x = Finite r" "x \<noteq> 0"
  shows "\<bar>r\<bar> = of_int (round_half_even (\<bar>x\<bar> / 2 powi (max (exponent \<bar>x\<bar>) (- 1022) - 52))) *
      2 powi (max (exponent \<bar>x\<bar>) (- 1022) - 52)"
proof -
  have b: "\<bar>x\<bar> < 2 ^ 1024 - 2 ^ 970" using assms(1) by (rule round64_Finite_bound)
  let ?q = "(2::real) powi (max (exponent \<bar>x\<bar>) (- 1022) - 52)"
  let ?n = "round_half_even (\<bar>x\<bar> / ?q)"
  have q: "0 < ?q" by simp
  have "of_int 0 \<le> \<bar>x\<bar> / ?q" using q by simp
  then have n: "0 \<le> ?n" by (rule round_half_even_ge)
  have nq: "0 \<le> of_int ?n * ?q" using n q by simp
  have "r = sgn x * (of_int ?n * ?q)"
    using round64_unfold [OF assms(2) b] assms(1) by simp
  then have "\<bar>r\<bar> = \<bar>sgn x\<bar> * \<bar>of_int ?n * ?q\<bar>" by (simp only: abs_mult)
  also have "\<dots> = of_int ?n * ?q" using assms(2) nq by (simp add: abs_sgn_eq del: abs_mult)
  finally show ?thesis .
qed

lemma pow2_52: "(2::real) powi 52 = of_int (2 ^ 52)"
  by (simp add: power_int_def)

lemma pow2_53: "(2::real) powi 53 = of_int (2 ^ 53)"
  by (simp add: power_int_def)

lemma round64_lower:
  assumes r: "round64 x = Finite r" and k: "- 1022 \<le> k" and x: "2 powi k \<le> \<bar>x\<bar>"
  shows "2 powi k \<le> \<bar>r\<bar>"
proof -
  let ?a = "\<bar>x\<bar>"
  let ?e = "exponent ?a"
  have a: "0 < ?a" using x pow2_pos [of k] by linarith
  then have x0: "x \<noteq> 0" by auto
  note b = exponent_bounds [OF a]
  have "(2::real) powi k < 2 powi (?e + 1)" using x b(2) by linarith
  then have ke: "k \<le> ?e" by (simp add: pow2_less_iff)
  then have m: "max ?e (- 1022) = ?e" using k by simp
  let ?q = "(2::real) powi (?e - 52)"
  let ?n = "round_half_even (?a / ?q)"
  have q: "0 < ?q" by simp
  have split: "(2::real) powi ?e = of_int (2 ^ 52) * ?q"
    using power_int_add [of "2::real" 52 "?e - 52"] by (simp add: pow2_52)
  then have "of_int (2 ^ 52) * ?q \<le> ?a" using b(1) by simp
  then have "of_int (2 ^ 52) \<le> ?a / ?q" using q by (simp add: field_simps)
  then have "2 ^ 52 \<le> ?n" by (rule round_half_even_ge)
  then have "(of_int (2 ^ 52) :: real) \<le> of_int ?n"
    by (simp only: of_int_le_iff)
  then have C: "of_int (2 ^ 52) * ?q \<le> of_int ?n * ?q"
    using q by (simp only: mult_le_cancel_right_pos)
  have D: "\<bar>r\<bar> = of_int ?n * ?q"
    using round64_abs [OF r x0] by (simp only: m)
  have A: "(2::real) powi k \<le> 2 powi ?e" using ke by (simp add: pow2_le_iff)
  have "(2::real) powi k \<le> of_int (2 ^ 52) * ?q" using A split by (simp only:)
  also note C
  also have "of_int ?n * ?q = \<bar>r\<bar>" using D by (simp only:)
  finally show ?thesis .
qed

lemma round64_half:
  assumes r: "round64 x = Finite r" and s: "r = 0 \<or> 2 powi (- 1020) \<le> \<bar>r\<bar>"
  shows "round64 (x / 2) = Finite (r / 2)"
proof (cases "x = 0")
  case True
  with r show ?thesis by (simp add: round64_zero)
next
  case x0: False
  let ?a = "\<bar>x\<bar>"
  let ?e = "exponent ?a"
  let ?q = "(2::real) powi (max ?e (- 1022) - 52)"
  let ?n = "round_half_even (?a / ?q)"
  have a: "0 < ?a" using x0 by simp
  note eb = exponent_bounds [OF a]
  have bound: "?a < 2 ^ 1024 - 2 ^ 970" using r by (rule round64_Finite_bound)
  have q: "0 < ?q" by simp
  have rx: "r = sgn x * (of_int ?n * ?q)"
    using round64_unfold [OF x0 bound] r by simp
  have absr: "\<bar>r\<bar> = of_int ?n * ?q" using round64_abs [OF r x0] .
  have x20: "x / 2 \<noteq> 0" using x0 by simp
  have bound2: "\<bar>x / 2\<bar> < 2 ^ 1024 - 2 ^ 970" using bound by simp
  have ax2: "\<bar>x / 2\<bar> = ?a / 2" by simp
  have sg: "sgn (x / 2) = sgn x" by (simp add: sgn_if)
  have e2: "exponent (?a / 2) = ?e - 1" using a by (rule exponent_half)
  have u2: "round64 (x / 2) = Finite (sgn x *
      (of_int (round_half_even (?a / 2 / 2 powi (max (?e - 1) (- 1022) - 52))) *
        2 powi (max (?e - 1) (- 1022) - 52)))"
    using round64_unfold [OF x20 bound2] by (simp only: ax2 sg e2)
  show ?thesis
  proof (cases "r = 0")
    case True
    then have n0: "?n = 0" using rx q x0 by (simp add: sgn_if split: if_splits)
    have lt: "?e < - 1022"
    proof (rule ccontr)
      assume "\<not> ?e < - 1022"
      then have "- 1022 \<le> ?e" by simp
      from round64_lower [OF r this eb(1)] True pow2_pos [of ?e] show False by simp
    qed
    then have m1: "max ?e (- 1022) = - 1022" and m2: "max (?e - 1) (- 1022) = - 1022" by simp_all
    have "0 \<le> ?a / ?q" using q by simp
    from round_half_even_zero_imp [OF n0 this] have "?a / ?q \<le> 1 / 2" .
    then have "?a / 2 / ?q < 1 / 2" using q a by (simp add: field_simps)
    moreover have "0 \<le> ?a / 2 / ?q" using q by simp
    ultimately have "round_half_even (?a / 2 / ?q) = 0" by (intro round_half_even_small)
    then show ?thesis using u2 True by (simp add: m1 m2)
  next
    case False
    with s have big: "2 powi (- 1020) \<le> \<bar>r\<bar>" by simp
    have ge: "- 1021 \<le> ?e"
    proof (rule ccontr)
      assume "\<not> - 1021 \<le> ?e"
      then have le: "?e \<le> - 1022" by simp
      then have m1: "max ?e (- 1022) = - 1022" by simp
      have "?e + 1 \<le> - 1021" using le by simp
      then have "(2::real) powi (?e + 1) \<le> 2 powi (- 1021)" by (simp only: pow2_le_iff)
      then have "?a < 2 powi (- 1021)" using eb(2) by linarith
      moreover have "(2::real) powi (- 1021) = 2 powi 53 * 2 powi (- 1074)"
        using power_int_add [of "2::real" 53 "- 1074"] by simp
      ultimately have "?a / 2 powi (- 1074) \<le> of_int (2 ^ 53)"
        by (simp add: field_simps pow2_53)
      then have "round_half_even (?a / 2 powi (- 1074)) \<le> 2 ^ 53"
        by (rule round_half_even_le)
      then have "(of_int (round_half_even (?a / 2 powi (- 1074))) :: real) \<le> of_int (2 ^ 53)"
        by (simp only: of_int_le_iff)
      then have "of_int (round_half_even (?a / 2 powi (- 1074))) * (2::real) powi (- 1074)
          \<le> of_int (2 ^ 53) * 2 powi (- 1074)"
        by (simp only: mult_le_cancel_right_pos zero_less_power_int zero_less_numeral)
      moreover have "\<bar>r\<bar> = of_int (round_half_even (?a / 2 powi (- 1074))) * 2 powi (- 1074)"
        using absr by (simp add: m1)
      ultimately have "\<bar>r\<bar> \<le> of_int (2 ^ 53) * 2 powi (- 1074)" by (simp only:)
      then have "\<bar>r\<bar> \<le> 2 powi (- 1021)"
        using \<open>(2::real) powi (- 1021) = 2 powi 53 * 2 powi (- 1074)\<close> by (simp only: pow2_53)
      moreover have "(2::real) powi (- 1021) < 2 powi (- 1020)" by (simp add: pow2_less_iff)
      ultimately show False using big by linarith
    qed
    then have m1: "max ?e (- 1022) = ?e" and m2: "max (?e - 1) (- 1022) = ?e - 1" by simp_all
    have "(2::real) powi (?e - 52) = 2 * 2 powi (?e - 1 - 52)"
      using pow2_Suc [of "?e - 1 - 52"] by simp
    then have qq: "2 powi (?e - 1 - 52) = (2::real) powi (?e - 52) / 2" by simp
    have u3: "round64 (x / 2) = Finite (sgn x *
        (of_int (round_half_even (?a / 2 / (2 powi (?e - 52) / 2))) * (2 powi (?e - 52) / 2)))"
      using u2 by (simp only: m2 qq)
    have arg: "?a / 2 / (2 powi (?e - 52) / 2) = ?a / 2 powi (?e - 52)" by simp
    have rx': "r = sgn x * (of_int (round_half_even (?a / 2 powi (?e - 52))) * 2 powi (?e - 52))"
      using rx by (simp only: m1)
    show ?thesis unfolding u3 arg rx' by simp
  qed
qed

lemma round64_quarter:
  assumes r: "round64 x = Finite r" and s: "r = 0 \<or> 2 powi (- 1019) \<le> \<bar>r\<bar>"
  shows "round64 (x / 4) = Finite (r / 4)"
proof -
  have "(2::real) powi (- 1020) \<le> 2 powi (- 1019)" by (simp add: pow2_le_iff)
  with s have "r = 0 \<or> 2 powi (- 1020) \<le> \<bar>r\<bar>" by auto
  from round64_half [OF r this] have h: "round64 (x / 2) = Finite (r / 2)" .
  have "(2::real) powi (- 1019) = 2 * 2 powi (- 1020)" using pow2_Suc [of "- 1020"] by simp
  with s have "r / 2 = 0 \<or> 2 powi (- 1020) \<le> \<bar>r / 2\<bar>" by auto
  from round64_half [OF h this] show ?thesis by simp
qed

lemma round64_pow2:
  assumes "- 1022 \<le> e" "e \<le> 1023"
  shows "round64 (2 powi e) = Finite (2 powi e)"
proof -
  let ?x = "(2::real) powi e"
  have "?x \<le> 2 powi 1023" using assms(2) by (simp only: pow2_le_iff)
  moreover have "(2::real) powi 1023 < 2 ^ 1024 - 2 ^ 970" by (simp add: power_int_def)
  ultimately have "?x < 2 ^ 1024 - 2 ^ 970" by (rule le_less_trans)
  moreover have ax: "\<bar>?x\<bar> = ?x" by simp
  ultimately have b: "\<bar>?x\<bar> < 2 ^ 1024 - 2 ^ 970" by (simp only:)
  have n0: "?x \<noteq> 0" by simp
  have sg: "sgn ?x = 1" by simp
  have m: "max e (- 1022) = e" using assms by simp
  have split: "?x = of_int (2 ^ 52) * 2 powi (e - 52)"
    using power_int_add [of "2::real" 52 "e - 52"] by (simp add: pow2_52)
  then have d: "?x / 2 powi (e - 52) = (of_int (2 ^ 52) :: real)"
    by (simp add: field_simps)
  have "round64 ?x = Finite (1 * (of_int (2 ^ 52) * 2 powi (e - 52)))"
    using round64_unfold [OF n0 b]
    by (simp only: ax sg exponent_pow2 m d round_half_even_of_int)
  also have "\<dots> = Finite ?x" using split by (simp only: mult_1)
  finally show ?thesis .
qed

lemma round64_eqI:
  assumes "2 powi e \<le> \<bar>x\<bar>" "\<bar>x\<bar> < 2 powi (e + 1)" "- 1022 \<le> e" "\<bar>x\<bar> < 2 ^ 1024 - 2 ^ 970"
  shows "round64 x =
    Finite (sgn x * (of_int (round_half_even (\<bar>x\<bar> / 2 powi (e - 52))) * 2 powi (e - 52)))"
proof -
  have e: "exponent \<bar>x\<bar> = e" using assms(1,2) by (rule exponent_unique)
  have "0 < \<bar>x\<bar>" using assms(1) pow2_pos [of e] by linarith
  then have x0: "x \<noteq> 0" by auto
  have m: "max e (- 1022) = e" using assms(3) by simp
  show ?thesis using round64_unfold [OF x0 assms(4)] by (simp only: e m)
qed

subsection \<open>Some floats\<close>

lemma round64_1: "round64 1 = Finite 1"
  using round64_eqI [of 0 1] by (simp add: round_half_even_def)

lemma round64_m1: "round64 (- 1) = Finite (- 1)"
  using round64_eqI [of 0 "- 1"] by (simp add: round_half_even_def)

lemma round64_2: "round64 2 = Finite 2"
  using round64_eqI [of 1 2] by (simp add: round_half_even_def)

lemma round64_m2: "round64 (- 2) = Finite (- 2)"
  using round64_eqI [of 1 "- 2"] by (simp add: round_half_even_def)

lemma round64_3: "round64 3 = Finite 3"
  using round64_eqI [of 1 3] by (simp add: round_half_even_def)

lemma round64_4: "round64 4 = Finite 4"
  using round64_eqI [of 2 4] by (simp add: round_half_even_def)

lemma round64_8: "round64 8 = Finite 8"
  using round64_eqI [of 3 8] by (simp add: round_half_even_def)

lemma round64_half_1: "round64 (1 / 2) = Finite (1 / 2)"
  using round64_eqI [of "- 1" "1 / 2"] by (simp add: round_half_even_def)

lemma round64_mhalf: "round64 (- (1 / 2)) = Finite (- (1 / 2))"
  using round64_eqI [of "- 1" "- (1 / 2)"] by (simp add: round_half_even_def)

lemma round64_3half: "round64 (3 / 2) = Finite (3 / 2)"
  using round64_eqI [of 0 "3 / 2"] by (simp add: round_half_even_def)

lemma round64_m3half: "round64 (- (3 / 2)) = Finite (- (3 / 2))"
  using round64_eqI [of 0 "- (3 / 2)"] by (simp add: round_half_even_def)

lemma round64_third: "round64 (1 / 3) = Finite (6004799503160661 / 18014398509481984)"
  using round64_eqI [of "- 2" "1 / 3"] by (simp add: round_half_even_def)

lemma round64_third_squared:
  "round64 ((6004799503160661 / 18014398509481984)\<^sup>2) =
     Finite (2001599834386887 / 18014398509481984)"
  using round64_eqI [of "- 4" "(6004799503160661 / 18014398509481984)\<^sup>2"]
  by (simp add: round_half_even_def power_divide)

lemma round64_ninth:
  "round64 (2001599834386887 / 18014398509481984) = Finite (2001599834386887 / 18014398509481984)"
  using round64_eqI [of "- 4" "2001599834386887 / 18014398509481984"]
  by (simp add: round_half_even_def)

lemma round64_5: "round64 5 = Finite 5"
  using round64_eqI [of 2 5] by (simp add: round_half_even_def)
lemma round64_m5: "round64 (- 5) = Finite (- 5)"
  using round64_eqI [of 2 "- 5"] by (simp add: round_half_even_def)
lemma round64_6: "round64 6 = Finite 6"
  using round64_eqI [of 2 6] by (simp add: round_half_even_def)
lemma round64_10: "round64 10 = Finite 10"
  using round64_eqI [of 3 10] by (simp add: round_half_even_def)
lemma round64_11: "round64 11 = Finite 11"
  using round64_eqI [of 3 11] by (simp add: round_half_even_def)





lemma round64_overflow: "round64 (2 ^ 1024) = PInf"
  by (simp add: round64_def)

lemma round64_2_512: "round64 (2 ^ 512) = Finite (2 ^ 512)"
  using round64_pow2 [of 512] by simp

lemma round64_2_511: "round64 (2 ^ 511) = Finite (2 ^ 511)"
  using round64_pow2 [of 511] by simp

lemma round64_2_1022: "round64 (2 ^ 1022) = Finite (2 ^ 1022)"
  using round64_pow2 [of 1022] by simp

section \<open>Properties of the reduced chi-square\<close>

subsection \<open>Integers as floats\<close>

lemma float_of_int_in_range:
  assumes "\<bar>d\<bar> < 2 ^ 1024 - 2 ^ 970"
  shows "\<exists>f. float_of_int d = Inr f \<and> round64 (of_int d) = Finite f \<and> (f = 0 \<longleftrightarrow> d = 0) \<and>
    (0 < d \<longrightarrow> 1 \<le> f) \<and> (d < 0 \<longrightarrow> f \<le> - 1)"
proof -
  have "(of_int \<bar>d\<bar> :: real) < of_int (2 ^ 1024 - 2 ^ 970)"
    using assms by (simp only: of_int_less_iff)
  then have "\<bar>of_int d :: real\<bar> < 2 ^ 1024 - 2 ^ 970" by simp
  from round64_is_Finite [OF this] obtain f where f: "round64 (of_int d) = Finite f" ..
  have z: "d = 0 \<Longrightarrow> f = 0" using f by (simp add: round64_zero)
  have big: "1 \<le> \<bar>f\<bar>" if "d \<noteq> 0"
  proof -
    from that have "1 \<le> \<bar>d\<bar>" by simp
    then have "(of_int 1 :: real) \<le> of_int \<bar>d\<bar>" by (simp only: of_int_le_iff)
    then have "2 powi 0 \<le> \<bar>of_int d :: real\<bar>" by simp
    from round64_lower [OF f _ this] show ?thesis by simp
  qed
  have pos: "1 \<le> f" if "0 < d"
  proof -
    have "0 \<le> f" using round64_sign(1) [OF f] that by simp
    with big [of] that show ?thesis by simp
  qed
  have neg: "f \<le> - 1" if "d < 0"
  proof -
    have "f \<le> 0" using round64_sign(2) [OF f] that by simp
    with big [of] that show ?thesis by simp
  qed
  have "f = 0 \<longleftrightarrow> d = 0" using z big by fastforce
  with f pos neg show ?thesis by (simp add: float_of_int_def)
qed

lemma float_of_int_overflow:
  assumes "2 ^ 1024 - 2 ^ 970 \<le> \<bar>d\<bar>"
  shows "float_of_int d = Inl OverflowError"
proof -
  have "(of_int (2 ^ 1024 - 2 ^ 970) :: real) \<le> of_int \<bar>d\<bar>"
    using assms by (simp only: of_int_le_iff)
  then have b: "2 ^ 1024 - 2 ^ 970 \<le> \<bar>of_int d :: real\<bar>" by simp
  have "round64 (of_int d) \<noteq> Finite f" for f
    using round64_Finite_bound [of "of_int d" f] b by auto
  then show ?thesis
    by (cases "round64 (of_int d)") (auto simp: float_of_int_def)
qed

lemma float_of_int_zero_iff: "float_of_int d = Inr 0 \<longleftrightarrow> d = 0"
proof (cases "\<bar>d\<bar> < 2 ^ 1024 - 2 ^ 970")
  case True
  from float_of_int_in_range [OF True] show ?thesis by auto
next
  case False
  then have "2 ^ 1024 - 2 ^ 970 \<le> \<bar>d\<bar>" by simp
  from float_of_int_overflow [OF this] False show ?thesis by auto
qed

lemma reciprocal_is_Finite:
  assumes "1 \<le> \<bar>f\<bar>"
  shows "\<exists>c. round64 (1 / f) = Finite c"
proof (rule round64_is_Finite)
  have "\<bar>1 / f\<bar> \<le> 1" using assms by (simp add: field_simps)
  moreover have "(1::real) < 2 ^ 1024 - 2 ^ 970" by simp
  ultimately show "\<bar>1 / f\<bar> < 2 ^ 1024 - 2 ^ 970" by linarith
qed

subsection \<open>Arrays of one length\<close>

lemma np_binary_same_length:
  "length xs = length ys \<Longrightarrow> np_binary f xs ys = Inr (map2 f xs ys)"
  by (simp add: np_binary_def)

lemma np_binary_error: "np_binary f xs ys = Inl e \<Longrightarrow> e = ValueError \<and> length xs \<noteq> length ys"
  by (auto simp: np_binary_def split: if_splits)

lemma length_chi_quotients:
  assumes "length fit = length y" "length y = length yerr"
  shows "length (chi_quotients fit y yerr) = length fit"
  using assms by (simp add: chi_quotients_def)

lemma length_chi_terms:
  assumes "length fit = length y" "length y = length yerr"
  shows "length (chi_terms fit y yerr) = length fit"
  using assms by (simp add: chi_terms_def length_chi_quotients)

lemma chi_quotients_nth:
  assumes "length fit = length y" "length y = length yerr" "i < length fit"
  shows "chi_quotients fit y yerr ! i = np_div (np_sub (fit ! i) (y ! i)) (yerr ! i)"
  using assms by (simp add: chi_quotients_def)

lemma chi_terms_nth:
  assumes "length fit = length y" "length y = length yerr" "i < length fit"
  shows "chi_terms fit y yerr ! i = np_square (np_div (np_sub (fit ! i) (y ! i)) (yerr ! i))"
  using assms by (simp add: chi_terms_def chi_quotients_nth length_chi_quotients)

lemma calc_same_length:
  assumes "length fit = length y" "length y = length yerr"
  shows "calc_reduced_chi_square fit x y yerr N n_free =
    (case float_of_int (N - n_free) of
       Inl e \<Rightarrow> Inl e
     | Inr f \<Rightarrow> if f = 0 then Inl ZeroDivisionError
         else Inr (np_mul (round64 (1 / f)) (py_sum (chi_terms fit y yerr))))"
  using assms
  by (simp add: calc_reduced_chi_square_def np_binary_same_length chi_terms_def chi_quotients_def
      split: sum.splits)

lemma calc_value:
  assumes "length fit = length y" "length y = length yerr"
    and "float_of_int (N - n_free) = Inr f" "f \<noteq> 0"
  shows "calc_reduced_chi_square fit x y yerr N n_free =
    Inr (np_mul (round64 (1 / f)) (py_sum (chi_terms fit y yerr)))"
  using assms(3,4) by (simp add: calc_same_length [OF assms(1,2)])

lemma calc_ZeroDivisionError_iff:
  "calc_reduced_chi_square fit x y yerr N n_free = Inl ZeroDivisionError \<longleftrightarrow> N - n_free = 0"
proof
  assume h: "calc_reduced_chi_square fit x y yerr N n_free = Inl ZeroDivisionError"
  have "float_of_int (N - n_free) = Inr 0"
  proof (cases "float_of_int (N - n_free)")
    case (Inl e)
    then have "e = OverflowError" by (auto simp: float_of_int_def split: npfloat.splits)
    with Inl h show ?thesis by (simp add: calc_reduced_chi_square_def)
  next
    case (Inr f)
    show ?thesis
    proof (cases "f = 0")
      case True
      with Inr show ?thesis by simp
    next
      case False
      with Inr h show ?thesis
        by (auto simp: calc_reduced_chi_square_def split: sum.splits dest: np_binary_error)
    qed
  qed
  then show "N - n_free = 0" by (simp only: float_of_int_zero_iff)
next
  assume "N - n_free = 0"
  then have "float_of_int (N - n_free) = Inr 0" by (simp only: float_of_int_zero_iff)
  then show "calc_reduced_chi_square fit x y yerr N n_free = Inl ZeroDivisionError"
    by (simp add: calc_reduced_chi_square_def)
qed

lemmas float_eval =
  calc_reduced_chi_square_def float_of_int_def np_binary_def py_sum_def np_sub_def np_square_def
  inf_of_sign_def power2_eq_square round64_zero

subsection \<open>The value returned\<close>

text \<open>
  Claim C1, as the specification states it: for arrays of length \<open>N\<close> and
  \<open>N - n_free \<noteq> 0\<close> the call returns
  \<^verbatim>\<open>(1 / (N - n_free)) * SUM_i ((fit_i - y_i) / yerr_i)^2\<close>. The code computes in floats.
  With \<^verbatim>\<open>fit=[1]\<close>, \<^verbatim>\<open>y=[0]\<close>, \<^verbatim>\<open>yerr=[3]\<close>, \<^verbatim>\<open>N=1\<close>, \<^verbatim>\<open>n_free=0\<close> the formula is
  \<open>1/9\<close>, and the call returns the float \<open>2001599834386887 / 2\<^sup>5\<^sup>4\<close>: the quotient
  \<open>1/3\<close> is rounded, and so is its square.
\<close>

theorem calc_reduced_chi_square_rounding_counterexample:
  "calc_reduced_chi_square [Finite 1] [Finite 0] [Finite 0] [Finite 3] 1 0 =
     Inr (Finite (2001599834386887 / 18014398509481984)) \<and>
   reduced_chi_square_formula [1] [0] [3] 1 0 = 1 / 9 \<and>
   (2001599834386887 / 18014398509481984 :: real) \<noteq> 1 / 9"
proof (intro conjI)
  show "calc_reduced_chi_square [Finite 1] [Finite 0] [Finite 0] [Finite 3] 1 0 =
     Inr (Finite (2001599834386887 / 18014398509481984))"
    using round64_1 round64_third round64_third_squared round64_ninth
    by (simp add: float_eval)
  show "reduced_chi_square_formula [1] [0] [3] 1 0 = 1 / 9"
    by (simp add: reduced_chi_square_formula_def power_divide)
  show "(2001599834386887 / 18014398509481984 :: real) \<noteq> 1 / 9"
    by simp
qed

lemma terms_by_index:
  assumes "length fit = n" "length y = n" "length yerr = n"
  shows "map (\<lambda>i. np_square (np_div (np_sub (fit ! (i - 1)) (y ! (i - 1))) (yerr ! (i - 1))))
           [1..<Suc n] = chi_terms fit y yerr"
proof (rule nth_equalityI)
  show "length (map (\<lambda>i. np_square (np_div (np_sub (fit ! (i - 1)) (y ! (i - 1))) (yerr ! (i - 1))))
           [1..<Suc n]) = length (chi_terms fit y yerr)"
    using assms by (simp add: length_chi_terms del: upt_Suc)
next
  fix i
  assume "i < length (map (\<lambda>i. np_square (np_div (np_sub (fit ! (i - 1)) (y ! (i - 1)))
           (yerr ! (i - 1)))) [1..<Suc n])"
  then have i: "i < n" by (simp del: upt_Suc)
  then have "[1..<Suc n] ! i = 1 + i" by (simp del: upt_Suc)
  then show "map (\<lambda>i. np_square (np_div (np_sub (fit ! (i - 1)) (y ! (i - 1))) (yerr ! (i - 1))))
           [1..<Suc n] ! i = chi_terms fit y yerr ! i"
    using assms i by (simp add: chi_terms_nth del: upt_Suc)
qed

text \<open>
  Claim C1, amended. For three arrays of length \<open>N\<close>, when \<open>N - n_free\<close> is not zero
  and converts to a float, the call returns the formula of the specification
  evaluated in float arithmetic: the conversion of \<open>N - n_free\<close>, its reciprocal, every
  difference, quotient and square, every addition of the sum taken from the first
  sample upwards, and the final product are each rounded to the nearest float, and an
  overflow gives an infinity. The scenario of the specification (\<^verbatim>\<open>fit=[2,2,2]\<close>,
  \<^verbatim>\<open>y=[1,1,1]\<close>, \<^verbatim>\<open>yerr=[1,1,1]\<close>, \<^verbatim>\<open>N=3\<close>, \<^verbatim>\<open>n_free=1\<close>) returns exactly \<open>1.5\<close>; it
  is the instance that follows the theorem.
\<close>

theorem calc_reduced_chi_square_equals_float_formula:
  assumes "int (length fit) = N" "int (length y) = N" "int (length yerr) = N"
    and "N - n_free \<noteq> 0" and "\<bar>N - n_free\<bar> < 2 ^ 1024 - 2 ^ 970"
  shows "calc_reduced_chi_square fit x y yerr N n_free =
           Inr (reduced_chi_square_ieee fit y yerr N n_free)"
proof -
  have len: "length fit = nat N" "length y = nat N" "length yerr = nat N"
    using assms(1-3) by auto
  from float_of_int_in_range [OF assms(5)] assms(4) obtain f where
    f: "float_of_int (N - n_free) = Inr f" "round64 (of_int (N - n_free)) = Finite f" "f \<noteq> 0"
    by auto
  have "calc_reduced_chi_square fit x y yerr N n_free =
      Inr (np_mul (round64 (1 / f)) (py_sum (chi_terms fit y yerr)))"
    using len f(1,3) by (intro calc_value) simp_all
  moreover have "reduced_chi_square_ieee fit y yerr N n_free =
      np_mul (np_div (Finite 1) (Finite f)) (py_sum (chi_terms fit y yerr))"
    unfolding reduced_chi_square_ieee_def f(2) terms_by_index [OF len] py_sum_def ..
  moreover have "np_div (Finite 1) (Finite f) = round64 (1 / f)"
    using f(3) by simp
  ultimately show ?thesis by simp
qed

theorem calc_reduced_chi_square_equals_float_formula_witness:
  "calc_reduced_chi_square [Finite 2, Finite 2, Finite 2] [Finite 0, Finite 1, Finite 2]
     [Finite 1, Finite 1, Finite 1] [Finite 1, Finite 1, Finite 1] 3 1 = Inr (Finite (3 / 2))"
proof -
  have l: "int (length [Finite 2, Finite 2, Finite 2]) = 3"
    "int (length [Finite 1, Finite 1, Finite 1]) = 3"
    and d: "(3::int) - 1 \<noteq> 0" "\<bar>(3::int) - 1\<bar> < 2 ^ 1024 - 2 ^ 970"
    by simp_all
  have "reduced_chi_square_ieee [Finite 2, Finite 2, Finite 2] [Finite 1, Finite 1, Finite 1]
      [Finite 1, Finite 1, Finite 1] 3 1 = Finite (3 / 2)"
    using round64_1 round64_2 round64_3 round64_half_1 round64_3half
    by (simp add: reduced_chi_square_ieee_def float_eval upt_rec)
  then show ?thesis
    using calc_reduced_chi_square_equals_float_formula [OF l(1) l(2) l(2) d,
        of "[Finite 0, Finite 1, Finite 2]"]
    by simp
qed

subsection \<open>Failures\<close>

text \<open>
  Claim C2, as the specification states it: the evaluator fails with a
  DegreesOfFreedomError whenever \<open>n - freeParameterCount \<le> 0\<close>. The code has no such
  check. With \<open>N = 1\<close> and \<open>n_free = 2\<close> the call returns \<open>- 1\<close>.
\<close>

theorem calc_reduced_chi_square_negative_dof_counterexample:
  "(1::int) - 2 \<le> 0 \<and>
   calc_reduced_chi_square [Finite 2] [Finite 0] [Finite 1] [Finite 1] 1 2 = Inr (Finite (- 1))"
  using round64_1 round64_m1 by (simp add: float_eval)

text \<open>
  Claim C2, amended. The call fails with Python's \<^verbatim>\<open>ZeroDivisionError\<close> exactly when
  \<open>N - n_free = 0\<close>. When \<open>N - n_free\<close> is negative and converts to a float (it is
  above \<open>- (2\<^sup>1\<^sup>0\<^sup>2\<^sup>4 - 2\<^sup>9\<^sup>7\<^sup>0)\<close>; below that the conversion raises
  \<^verbatim>\<open>OverflowError\<close>) and the three arrays have one length, the call does not fail: it
  returns the reciprocal of that negative float times the sum.
\<close>

theorem calc_reduced_chi_square_zero_division:
  "(calc_reduced_chi_square fit x y yerr N n_free = Inl ZeroDivisionError \<longleftrightarrow> N - n_free = 0) \<and>
   (N - n_free < 0 \<and> - (2 ^ 1024 - 2 ^ 970) < N - n_free \<and>
    length fit = length y \<and> length y = length yerr \<longrightarrow>
      (\<exists>f<0. float_of_int (N - n_free) = Inr f \<and>
         calc_reduced_chi_square fit x y yerr N n_free =
           Inr (np_mul (round64 (1 / f)) (py_sum (chi_terms fit y yerr)))))"
proof (intro conjI impI)
  show "calc_reduced_chi_square fit x y yerr N n_free = Inl ZeroDivisionError \<longleftrightarrow> N - n_free = 0"
    by (rule calc_ZeroDivisionError_iff)
next
  assume h: "N - n_free < 0 \<and> - (2 ^ 1024 - 2 ^ 970) < N - n_free \<and>
    length fit = length y \<and> length y = length yerr"
  then have "\<bar>N - n_free\<bar> < 2 ^ 1024 - 2 ^ 970" by simp
  from float_of_int_in_range [OF this] h obtain f where
    f: "float_of_int (N - n_free) = Inr f" "f \<le> - 1" by auto
  then have "f < 0" "f \<noteq> 0" by simp_all
  with f(1) h calc_value [of fit y yerr N n_free f x]
  show "\<exists>f<0. float_of_int (N - n_free) = Inr f \<and>
         calc_reduced_chi_square fit x y yerr N n_free =
           Inr (np_mul (round64 (1 / f)) (py_sum (chi_terms fit y yerr)))"
    by blast
qed

theorem calc_reduced_chi_square_zero_division_witness:
  "calc_reduced_chi_square [Finite 2, Finite 2, Finite 2] [Finite 0, Finite 1, Finite 2]
     [Finite 1, Finite 1, Finite 1] [Finite 1, Finite 1, Finite 1] 3 3 = Inl ZeroDivisionError \<and>
   calc_reduced_chi_square [Finite 2, Finite 2, Finite 2] [Finite 0, Finite 1, Finite 2]
     [Finite 1, Finite 1, Finite 1] [Finite 1, Finite 1, Finite 1] 3 5 = Inr (Finite (- (3 / 2)))"
proof -
  let ?fit = "[Finite 2, Finite 2, Finite 2]" and ?x = "[Finite 0, Finite 1, Finite 2]"
    and ?y = "[Finite 1, Finite 1, Finite 1]"
  have z: "calc_reduced_chi_square ?fit ?x ?y ?y 3 3 = Inl ZeroDivisionError"
    using calc_reduced_chi_square_zero_division [of ?fit ?x ?y ?y 3 3] by simp
  have "\<exists>f<0. float_of_int (3 - 5) = Inr f \<and>
      calc_reduced_chi_square ?fit ?x ?y ?y 3 5 =
        Inr (np_mul (round64 (1 / f)) (py_sum (chi_terms ?fit ?y ?y)))"
    using calc_reduced_chi_square_zero_division [of ?fit ?x ?y ?y 3 5] by simp
  then obtain f where f: "float_of_int (3 - 5) = Inr f"
    and c: "calc_reduced_chi_square ?fit ?x ?y ?y 3 5 =
        Inr (np_mul (round64 (1 / f)) (py_sum (chi_terms ?fit ?y ?y)))"
    by blast
  have "float_of_int (3 - 5) = Inr (- 2)"
    using round64_m2 by (simp add: float_of_int_def)
  with f have f2: "f = - 2" by simp
  have "np_mul (round64 (1 / (- 2))) (py_sum (chi_terms ?fit ?y ?y)) = Finite (- (3 / 2))"
    using round64_1 round64_2 round64_3 round64_mhalf round64_m3half
    by (simp add: chi_terms_def chi_quotients_def float_eval)
  with c f2 z show ?thesis by simp
qed

text \<open>
  Claim C8, as the specification states it: the evaluator fails with an
  InvalidUncertainty error whenever an uncertainty is \<open>\<le> 0\<close>. The code never looks at
  the sign of \<^verbatim>\<open>yerr\<close>. With the uncertainties \<open>[- 1, 1]\<close> the call returns \<open>2\<close>.
\<close>

theorem calc_reduced_chi_square_negative_uncertainty_counterexample:
  "(- 1::real) \<le> 0 \<and>
   calc_reduced_chi_square [Finite 2, Finite 2] [Finite 0, Finite 1] [Finite 1, Finite 1]
     [Finite (- 1), Finite 1] 2 1 = Inr (Finite 2)"
  using round64_1 round64_m1 round64_2 by (simp add: float_eval)

text \<open>
  Claim C8, amended. The uncertainties are not checked: when the three arrays have one
  length and \<open>N - n_free\<close> is not zero and converts to a float, the call returns a
  value for every content of \<^verbatim>\<open>yerr\<close>, entries \<open>\<le> 0\<close> included. In the instance that
  follows the theorem the uncertainties are \<open>0\<close> and \<open>- 1\<close> and the value is \<^verbatim>\<open>inf\<close>.
\<close>

theorem calc_reduced_chi_square_accepts_any_uncertainty:
  assumes "length fit = length y" "length y = length yerr"
    and "N - n_free \<noteq> 0" and "\<bar>N - n_free\<bar> < 2 ^ 1024 - 2 ^ 970"
  shows "\<exists>f. f \<noteq> 0 \<and> float_of_int (N - n_free) = Inr f \<and>
    calc_reduced_chi_square fit x y yerr N n_free =
      Inr (np_mul (round64 (1 / f)) (py_sum (chi_terms fit y yerr)))"
proof -
  from float_of_int_in_range [OF assms(4)] assms(3) obtain f where
    f: "float_of_int (N - n_free) = Inr f" "f \<noteq> 0" by auto
  with calc_value [OF assms(1,2) f] show ?thesis by blast
qed

theorem calc_reduced_chi_square_accepts_any_uncertainty_witness:
  "calc_reduced_chi_square [Finite 2, Finite 2] [Finite 0, Finite 1] [Finite 1, Finite 1]
     [Finite 0, Finite (- 1)] 2 1 = Inr PInf"
proof -
  let ?fit = "[Finite 2, Finite 2]" and ?x = "[Finite 0, Finite 1]"
    and ?y = "[Finite 1, Finite 1]" and ?yerr = "[Finite 0, Finite (- 1)]"
  have "\<exists>f. f \<noteq> 0 \<and> float_of_int (2 - 1) = Inr f \<and>
    calc_reduced_chi_square ?fit ?x ?y ?yerr 2 1 =
      Inr (np_mul (round64 (1 / f)) (py_sum (chi_terms ?fit ?y ?yerr)))"
    using calc_reduced_chi_square_accepts_any_uncertainty [of ?fit ?y ?yerr 2 1 ?x] by simp
  then obtain f where f: "float_of_int (2 - 1) = Inr f"
    and c: "calc_reduced_chi_square ?fit ?x ?y ?yerr 2 1 =
      Inr (np_mul (round64 (1 / f)) (py_sum (chi_terms ?fit ?y ?yerr)))"
    by blast
  have "float_of_int (2 - 1) = Inr 1"
    using round64_1 by (simp add: float_of_int_def)
  with f have f1: "f = 1" by simp
  have "np_mul (round64 (1 / 1)) (py_sum (chi_terms ?fit ?y ?yerr)) = PInf"
    using round64_1 round64_m1
    by (simp add: chi_terms_def chi_quotients_def float_eval)
  with c f1 show ?thesis by simp
qed

subsection \<open>An exact fit\<close>

lemma py_sum_zeros: "foldl np_add (Finite 0) (replicate n (Finite 0)) = Finite 0"
  by (induction n) (simp_all add: round64_zero)

text \<open>
  Claim C5. For arrays of one length, positive uncertainties and \<open>N - n_free > 0\<close>, the
  call returns exactly \<open>0\<close> when the fit array equals the observed array. The count
  \<open>N - n_free\<close> has to convert to a float, as every count of samples does; a larger
  integer raises \<^verbatim>\<open>OverflowError\<close>. The scenario of the specification (\<^verbatim>\<open>[1,2,3]\<close>
  against \<^verbatim>\<open>[1,2,3]\<close>) follows the theorem.
\<close>

theorem calc_reduced_chi_square_exact_fit:
  assumes "length y = length yerr" "\<forall>u\<in>set yerr. 0 < u" "0 < N - n_free"
    and "N - n_free < 2 ^ 1024 - 2 ^ 970"
  shows "calc_reduced_chi_square (map Finite y) x (map Finite y) (map Finite yerr) N n_free =
           Inr (Finite 0)"
proof -
  have "\<bar>N - n_free\<bar> < 2 ^ 1024 - 2 ^ 970" using assms(3,4) by simp
  from float_of_int_in_range [OF this] assms(3) obtain f where
    f: "float_of_int (N - n_free) = Inr f" "1 \<le> f" by auto
  then have "1 \<le> \<bar>f\<bar>" by simp
  from reciprocal_is_Finite [OF this] obtain c where c: "round64 (1 / f) = Finite c" ..
  have "chi_terms (map Finite y) (map Finite y) (map Finite yerr) =
      replicate (length y) (Finite 0)"
  proof (rule nth_equalityI)
    show "length (chi_terms (map Finite y) (map Finite y) (map Finite yerr)) =
        length (replicate (length y) (Finite 0))"
      using assms(1) by (simp add: length_chi_terms)
  next
    fix i
    assume "i < length (chi_terms (map Finite y) (map Finite y) (map Finite yerr))"
    then have i: "i < length y" using assms(1) by (simp add: length_chi_terms)
    then have "yerr ! i \<in> set yerr" using assms(1) by simp
    then have "yerr ! i \<noteq> 0" using assms(2) by fastforce
    then show "chi_terms (map Finite y) (map Finite y) (map Finite yerr) ! i =
        replicate (length y) (Finite 0) ! i"
      using i assms(1) by (simp add: chi_terms_nth np_sub_def np_square_def round64_zero)
  qed
  then have "py_sum (chi_terms (map Finite y) (map Finite y) (map Finite yerr)) = Finite 0"
    by (simp add: py_sum_def py_sum_zeros)
  moreover have "calc_reduced_chi_square (map Finite y) x (map Finite y) (map Finite yerr) N n_free =
      Inr (np_mul (round64 (1 / f)) (py_sum (chi_terms (map Finite y) (map Finite y)
        (map Finite yerr))))"
    using assms(1) f by (intro calc_value) simp_all
  ultimately show ?thesis by (simp add: c round64_zero)
qed

theorem calc_reduced_chi_square_exact_fit_witness:
  "calc_reduced_chi_square [Finite 1, Finite 2, Finite 3] [Finite 0, Finite 1, Finite 2]
     [Finite 1, Finite 2, Finite 3] [Finite 1, Finite 1, Finite 1] 3 1 = Inr (Finite 0)"
  using calc_reduced_chi_square_exact_fit [of "[1, 2, 3]" "[1, 1, 1]" 3 1 "[Finite 0, Finite 1, Finite 2]"]
  by simp

subsection \<open>Order of the samples\<close>






subsection \<open>Scale of the uncertainties\<close>

text \<open>
  Claim C7, as the specification states it: doubling every uncertainty divides the
  result by exactly \<open>4\<close>. An overflow breaks this. With \<^verbatim>\<open>fit=[2**512]\<close>, \<^verbatim>\<open>y=[0]\<close>,
  \<^verbatim>\<open>N=1\<close>, \<^verbatim>\<open>n_free=0\<close> the call returns \<^verbatim>\<open>inf\<close> for \<^verbatim>\<open>yerr=[1]\<close>, the square
  \<open>2\<^sup>1\<^sup>0\<^sup>2\<^sup>4\<close> being too large for a float, and \<open>2\<^sup>1\<^sup>0\<^sup>2\<^sup>2\<close> for \<^verbatim>\<open>yerr=[2]\<close>; a
  quarter of \<^verbatim>\<open>inf\<close> is \<^verbatim>\<open>inf\<close>.
\<close>

theorem calc_reduced_chi_square_overflow_counterexample:
  "calc_reduced_chi_square [Finite (2 ^ 512)] [Finite 0] [Finite 0] [Finite 1] 1 0 = Inr PInf \<and>
   calc_reduced_chi_square [Finite (2 ^ 512)] [Finite 0] [Finite 0] [Finite 2] 1 0 =
     Inr (Finite (2 ^ 1022)) \<and>
   np_div PInf (Finite 4) \<noteq> Finite (2 ^ 1022)"
proof (intro conjI)
  show "calc_reduced_chi_square [Finite (2 ^ 512)] [Finite 0] [Finite 0] [Finite 1] 1 0 = Inr PInf"
    using round64_1 round64_2_512 round64_overflow
    by (simp add: float_eval)
  show "calc_reduced_chi_square [Finite (2 ^ 512)] [Finite 0] [Finite 0] [Finite 2] 1 0 =
     Inr (Finite (2 ^ 1022))"
    using round64_1 round64_2_512 round64_2_511 round64_2_1022
    by (simp add: float_eval)
  show "np_div PInf (Finite 4) \<noteq> Finite (2 ^ 1022)"
    by simp
qed

lemma pow2_1020_le_1019: "(2::real) powi (- 1020) \<le> 2 powi (- 1019)"
  by (simp only: pow2_le_iff)

lemma np_div_half:
  assumes u: "0 < u" and q: "np_div d (Finite u) = Finite a"
    and s: "a = 0 \<or> 2 powi (- 1019) \<le> \<bar>a\<bar>"
  shows "np_div d (Finite (2 * u)) = Finite (a / 2)"
proof (cases d)
  case (Finite dv)
  with u q have r: "round64 (dv / u) = Finite a" by simp
  from s pow2_1020_le_1019 have "a = 0 \<or> 2 powi (- 1020) \<le> \<bar>a\<bar>" by linarith
  from round64_half [OF r this] have "round64 (dv / u / 2) = Finite (a / 2)" .
  moreover have "dv / (2 * u) = dv / u / 2" by simp
  moreover have "np_div (Finite dv) (Finite (2 * u)) = round64 (dv / (2 * u))" using u by simp
  ultimately show ?thesis using Finite by (simp only:)
next
  case PInf
  with u q show ?thesis by simp
next
  case NInf
  with u q show ?thesis by simp
next
  case NaN
  with q show ?thesis by simp
qed

lemma np_square_quarter:
  assumes q: "np_square (Finite a) = Finite s" and s: "s = 0 \<or> 2 powi (- 1019) \<le> \<bar>s\<bar>"
  shows "np_square (Finite (a / 2)) = Finite (s / 4)" and "0 \<le> s"
proof -
  from q have r: "round64 (a * a) = Finite s" by (simp add: np_square_def)
  from round64_quarter [OF r s] have "round64 (a * a / 4) = Finite (s / 4)" .
  moreover have "a / 2 * (a / 2) = a * a / 4" by simp
  ultimately show "np_square (Finite (a / 2)) = Finite (s / 4)" by (simp add: np_square_def)
  show "0 \<le> s" using round64_sign(1) [OF r] by simp
qed

lemma foldl_np_add_not_Finite:
  assumes "\<And>a. v \<noteq> Finite a"
  shows "foldl np_add v (map Finite ss) \<noteq> Finite R"
  using assms
proof (induction ss arbitrary: v)
  case Nil
  then show ?case by simp
next
  case (Cons s ss)
  have "\<And>a. np_add v (Finite s) \<noteq> Finite a"
    using Cons.prems by (cases v) auto
  from Cons.IH [OF this] show ?case by simp
qed

lemma foldl_np_add_quarter:
  assumes "\<forall>s\<in>set ss. 0 \<le> s \<and> (s = 0 \<or> 2 powi (- 1019) \<le> s)"
    and "0 \<le> A" and "A = 0 \<or> 2 powi (- 1019) \<le> A"
    and "foldl np_add (Finite A) (map Finite ss) = Finite R"
  shows "foldl np_add (Finite (A / 4)) (map (\<lambda>s. Finite (s / 4)) ss) = Finite (R / 4)"
  using assms
proof (induction ss arbitrary: A)
  case Nil
  then show ?case by simp
next
  case (Cons s ss)
  have s: "0 \<le> s" "s = 0 \<or> 2 powi (- 1019) \<le> s" using Cons.prems(1) by simp_all
  have rest: "\<forall>s\<in>set ss. 0 \<le> s \<and> (s = 0 \<or> 2 powi (- 1019) \<le> s)"
    using Cons.prems(1) by simp
  have run: "foldl np_add (round64 (A + s)) (map Finite ss) = Finite R"
    using Cons.prems(4) by simp
  have "\<exists>B. round64 (A + s) = Finite B"
  proof (rule ccontr)
    assume "\<nexists>B. round64 (A + s) = Finite B"
    then have "\<And>a. round64 (A + s) \<noteq> Finite a" by blast
    from foldl_np_add_not_Finite [OF this] run show False by blast
  qed
  then obtain B where B: "round64 (A + s) = Finite B" ..
  have B0: "0 \<le> B" using round64_sign(1) [OF B] Cons.prems(2) s(1) by simp
  have Bs: "B = 0 \<or> 2 powi (- 1019) \<le> B"
  proof (cases "A + s = 0")
    case True
    with B show ?thesis by (simp add: round64_zero)
  next
    case False
    then have "2 powi (- 1019) \<le> A + s"
      using Cons.prems(2,3) s by linarith
    then have "2 powi (- 1019) \<le> \<bar>A + s\<bar>" by linarith
    from round64_lower [OF B _ this] B0 show ?thesis by simp
  qed
  then have "B = 0 \<or> 2 powi (- 1019) \<le> \<bar>B\<bar>" using B0 by auto
  from round64_quarter [OF B this] have q: "round64 ((A + s) / 4) = Finite (B / 4)" .
  have "A / 4 + s / 4 = (A + s) / 4" by simp
  moreover have "np_add (Finite (A / 4)) (Finite (s / 4)) = round64 (A / 4 + s / 4)" by simp
  ultimately have step: "np_add (Finite (A / 4)) (Finite (s / 4)) = Finite (B / 4)"
    using q by (simp only:)
  from run B have "foldl np_add (Finite B) (map Finite ss) = Finite R" by simp
  from Cons.IH [OF rest B0 Bs this] step show ?case by simp
qed

lemma np_mul_Finite_cases:
  assumes "np_mul c S = Finite r"
  obtains cv sv where "c = Finite cv" "S = Finite sv" "round64 (cv * sv) = Finite r"
  using assms by (cases c; cases S) (simp_all add: inf_of_sign_def split: if_splits)

text \<open>
  Claim C7, amended. Take arrays of one length, uncertainties that are positive and
  below \<open>2\<^sup>1\<^sup>0\<^sup>2\<^sup>3\<close> (so that their doubles are floats) and \<open>N - n_free > 0\<close>. If the
  call returns a finite \<open>r\<close>, and every quotient \<^verbatim>\<open>(fit - y) / yerr\<close>, every squared
  term and \<open>r\<close> itself is zero or at least \<open>2\<^sup>-\<^sup>1\<^sup>0\<^sup>1\<^sup>9\<close> in magnitude, then the call
  with every uncertainty doubled returns exactly \<open>r / 4\<close>. The conditions keep every
  halved or quartered value away from overflow and from the subnormal range, where
  rounding no longer commutes with a division by two.
\<close>

theorem calc_reduced_chi_square_double_uncertainty:
  assumes len: "length fit = length y" "length y = length yerr"
    and pos: "\<forall>u\<in>set yerr. 0 < u \<and> u < 2 ^ 1023"
    and dof: "0 < N - n_free"
    and res: "calc_reduced_chi_square (map Finite fit) x (map Finite y) (map Finite yerr) N n_free =
      Inr (Finite r)"
    and safe: "\<forall>v \<in> set (chi_quotients (map Finite fit) (map Finite y) (map Finite yerr)) \<union>
        set (chi_terms (map Finite fit) (map Finite y) (map Finite yerr)) \<union> {Finite r}.
        \<exists>a. v = Finite a \<and> (a = 0 \<or> 2 powi (- 1019) \<le> \<bar>a\<bar>)"
  shows "calc_reduced_chi_square (map Finite fit) x (map Finite y)
           (map Finite (map (\<lambda>u. 2 * u) yerr)) N n_free = Inr (Finite (r / 4))"
proof -
  let ?F = "map Finite fit" and ?Y = "map Finite y" and ?U = "map Finite yerr"
  define U2 where "U2 = map Finite (map (\<lambda>u. 2 * u) yerr)"
  have lU2: "length U2 = length yerr" by (simp add: U2_def)
  have U2_nth: "U2 ! i = Finite (2 * yerr ! i)" if "i < length yerr" for i
    using that by (simp add: U2_def)
  let ?Q = "chi_quotients ?F ?Y ?U" and ?T = "chi_terms ?F ?Y ?U"
  let ?Q2 = "chi_quotients ?F ?Y U2" and ?T2 = "chi_terms ?F ?Y U2"
  let ?n = "length fit"
  have L: "length ?F = length ?Y" "length ?Y = length ?U" "length ?Y = length U2"
    using len lU2 by simp_all
  have lq: "length ?Q = ?n" "length ?T = ?n" "length ?Q2 = ?n" "length ?T2 = ?n"
    using len lU2 by (simp_all add: length_chi_quotients length_chi_terms)
  define t where "t = (2::real) powi (- 1019)"
  have safe_r: "r = 0 \<or> t \<le> \<bar>r\<bar>"
    and safe_Q: "\<And>v. v \<in> set ?Q \<Longrightarrow> \<exists>a. v = Finite a \<and> (a = 0 \<or> t \<le> \<bar>a\<bar>)"
    and safe_T: "\<And>v. v \<in> set ?T \<Longrightarrow> \<exists>a. v = Finite a \<and> (a = 0 \<or> t \<le> \<bar>a\<bar>)"
    using safe unfolding t_def [symmetric] by blast+
  note half = np_div_half [folded t_def] and quarter = np_square_quarter [folded t_def]
  obtain f where f: "float_of_int (N - n_free) = Inr f" "f \<noteq> 0"
    and R: "np_mul (round64 (1 / f)) (py_sum ?T) = Finite r"
    using res unfolding calc_same_length [OF L(1,2)]
    by (auto split: sum.splits if_splits)
  from R obtain c S where c: "round64 (1 / f) = Finite c" and S: "py_sum ?T = Finite S"
    and cS: "round64 (c * S) = Finite r"
    by (rule np_mul_Finite_cases)
  define ss where "ss = map (\<lambda>v. case v of Finite a \<Rightarrow> a | _ \<Rightarrow> 0) ?T"
  have T: "?T = map Finite ss"
  proof -
    have "\<forall>v\<in>set ?T. Finite (case v of Finite a \<Rightarrow> a | _ \<Rightarrow> 0) = v"
      using safe_T by fastforce
    then have "map (\<lambda>v. Finite (case v of Finite a \<Rightarrow> a | _ \<Rightarrow> 0)) ?T = ?T"
      by (intro map_idI) simp
    then show ?thesis by (simp add: ss_def comp_def)
  qed
  have lss: "length ss = ?n" using lq(2) by (simp add: ss_def)
  have elem: "?T2 ! i = Finite (ss ! i / 4) \<and> 0 \<le> ss ! i \<and>
      (ss ! i = 0 \<or> t \<le> ss ! i)" if i: "i < ?n" for i
  proof -
    let ?d = "np_sub (Finite (fit ! i)) (Finite (y ! i))"
    have u: "0 < yerr ! i" using pos i len by simp
    have Qi: "?Q ! i = np_div ?d (Finite (yerr ! i))"
      using i len by (simp add: chi_quotients_nth)
    have Q2i: "?Q2 ! i = np_div ?d (Finite (2 * yerr ! i))"
      using i len lU2 by (simp add: chi_quotients_nth U2_nth)
    have "?Q ! i \<in> set ?Q" using i lq(1) by simp
    from safe_Q [OF this] obtain a where a: "?Q ! i = Finite a" "a = 0 \<or> t \<le> \<bar>a\<bar>"
      by blast
    from half [OF u a(1) [unfolded Qi] a(2)] Q2i
    have q2: "?Q2 ! i = Finite (a / 2)" by simp
    have Ti: "?T ! i = np_square (Finite a)"
      using i lq(1) a(1) by (simp add: chi_terms_def)
    have T2i: "?T2 ! i = np_square (Finite (a / 2))"
      using i lq(3) q2 by (simp add: chi_terms_def)
    have "?T ! i \<in> set ?T" using i lq(2) by simp
    from safe_T [OF this] obtain s where s: "?T ! i = Finite s" "s = 0 \<or> t \<le> \<bar>s\<bar>"
      by blast
    have ssi: "ss ! i = s" using i lq(2) s(1) by (simp add: ss_def)
    from quarter [OF s(1) [unfolded Ti] s(2)] T2i
    have "?T2 ! i = Finite (s / 4)" "0 \<le> s" by simp_all
    with s(2) ssi show ?thesis by auto
  qed
  have T2: "?T2 = map (\<lambda>s. Finite (s / 4)) ss"
  proof (rule nth_equalityI)
    show "length ?T2 = length (map (\<lambda>s. Finite (s / 4)) ss)"
      using lq(4) lss by (simp only: length_map)
  next
    fix i
    assume "i < length ?T2"
    then have i: "i < ?n" by (simp only: lq(4))
    from elem [OF i] have "?T2 ! i = Finite (ss ! i / 4)" by (rule conjunct1)
    moreover have "map (\<lambda>s. Finite (s / 4)) ss ! i = Finite (ss ! i / 4)"
      using i lss by simp
    ultimately show "?T2 ! i = map (\<lambda>s. Finite (s / 4)) ss ! i" by (simp only:)
  qed
  have props: "\<forall>s\<in>set ss. 0 \<le> s \<and> (s = 0 \<or> t \<le> s)"
  proof
    fix s
    assume "s \<in> set ss"
    then obtain i where i: "i < ?n" and s: "s = ss ! i"
      using lss by (auto simp: in_set_conv_nth)
    from elem [OF i] show "0 \<le> s \<and> (s = 0 \<or> t \<le> s)"
      unfolding s by (rule conjunct2)
  qed
  have "foldl np_add (Finite 0) (map Finite ss) = Finite S"
    using S T by (simp add: py_sum_def)
  from foldl_np_add_quarter [folded t_def, OF props _ _ this]
  have "foldl np_add (Finite (0 / 4)) (map (\<lambda>s. Finite (s / 4)) ss) = Finite (S / 4)" by simp
  then have S2: "py_sum ?T2 = Finite (S / 4)" by (simp add: py_sum_def T2)
  from round64_quarter [folded t_def, OF cS safe_r] have "round64 (c * S / 4) = Finite (r / 4)" .
  moreover have "c * (S / 4) = c * S / 4" by simp
  ultimately have "np_mul (round64 (1 / f)) (py_sum ?T2) = Finite (r / 4)"
    by (simp add: c S2)
  then have "calc_reduced_chi_square ?F x ?Y U2 N n_free = Inr (Finite (r / 4))"
    using calc_value [OF L(1,3) f, of x] by simp
  then show ?thesis by (simp only: U2_def)
qed

theorem calc_reduced_chi_square_double_uncertainty_witness:
  "calc_reduced_chi_square [Finite 3, Finite 5] [Finite 0, Finite 1] [Finite 1, Finite 1]
     [Finite 1, Finite 2] 2 1 = Inr (Finite 8) \<and>
   calc_reduced_chi_square [Finite 3, Finite 5] [Finite 0, Finite 1] [Finite 1, Finite 1]
     [Finite 2, Finite 4] 2 1 = Inr (Finite 2)"
proof -
  have q: "chi_quotients [Finite 3, Finite 5] [Finite 1, Finite 1] [Finite 1, Finite 2] =
      [Finite 2, Finite 2]"
    using round64_2 round64_4 by (simp add: chi_quotients_def np_sub_def)
  have t: "chi_terms [Finite 3, Finite 5] [Finite 1, Finite 1] [Finite 1, Finite 2] =
      [Finite 4, Finite 4]"
    using round64_4 by (simp add: chi_terms_def q np_square_def)
  have a: "calc_reduced_chi_square [Finite 3, Finite 5] [Finite 0, Finite 1] [Finite 1, Finite 1]
      [Finite 1, Finite 2] 2 1 = Inr (Finite 8)"
    using round64_1 round64_2 round64_4 round64_8 by (simp add: float_eval)
  have "calc_reduced_chi_square (map Finite [3, 5]) [Finite 0, Finite 1] (map Finite [1, 1])
      (map Finite (map (\<lambda>u. 2 * u) [1, 2])) 2 1 = Inr (Finite (8 / 4))"
  proof (rule calc_reduced_chi_square_double_uncertainty)
    show "calc_reduced_chi_square (map Finite [3, 5]) [Finite 0, Finite 1] (map Finite [1, 1])
        (map Finite [1, 2]) 2 1 = Inr (Finite 8)"
      using a by simp
    show "\<forall>v\<in>set (chi_quotients (map Finite [3, 5]) (map Finite [1, 1]) (map Finite [1, 2])) \<union>
        set (chi_terms (map Finite [3, 5]) (map Finite [1, 1]) (map Finite [1, 2])) \<union> {Finite 8}.
        \<exists>a. v = Finite a \<and> (a = 0 \<or> 2 powi (- 1019) \<le> \<bar>a\<bar>)"
      using q t by simp
  qed simp_all
  with a show ?thesis by simp
qed

subsection \<open>The unused argument\<close>

text \<open>
  Claim C10. The result of \<^verbatim>\<open>calc_reduced_chi_square\<close> does not depend on its \<^verbatim>\<open>x\<close>
  argument: two calls that differ only in \<^verbatim>\<open>x\<close> return the same value or raise the same
  error.
\<close>

theorem calc_reduced_chi_square_ignores_x:
  "calc_reduced_chi_square fit x y yerr N n_free = calc_reduced_chi_square fit x' y yerr N n_free"
  by (simp add: calc_reduced_chi_square_def)

section \<open>Properties of \<^verbatim>\<open>SineNew\<close>\<close>

text \<open>
  Claim C9. \<^verbatim>\<open>fit_deriv\<close> returns four arrays, in the order of the parameters
  \<open>a\<close>, \<open>b\<close>, \<open>c\<close>, \<open>d\<close>, and element \<open>i\<close> of each array is the partial derivative
  of element \<open>i\<close> of \<^verbatim>\<open>evaluate(x, a, b, c, d)\<close> with respect to that parameter:
  \<open>sin (b x + c)\<close>, \<open>a cos (b x + c) x\<close>, \<open>a cos (b x + c)\<close> and \<open>1\<close>.
\<close>

theorem SineNew_fit_deriv_partial_derivatives:
  "SineNew_fit_deriv x a b c d =
     [map (\<lambda>xi. sin (b * xi + c)) x,
      map (\<lambda>xi. a * cos (b * xi + c) * xi) x,
      map (\<lambda>xi. a * cos (b * xi + c)) x,
      map (\<lambda>xi. 1) x] \<and>
   length (SineNew_fit_deriv x a b c d) = 4 \<and>
   (\<forall>i<length x.
      ((\<lambda>a'. SineNew_evaluate x a' b c d ! i) has_real_derivative
          SineNew_fit_deriv x a b c d ! 0 ! i) (at a) \<and>
      ((\<lambda>b'. SineNew_evaluate x a b' c d ! i) has_real_derivative
          SineNew_fit_deriv x a b c d ! 1 ! i) (at b) \<and>
      ((\<lambda>c'. SineNew_evaluate x a b c' d ! i) has_real_derivative
          SineNew_fit_deriv x a b c d ! 2 ! i) (at c) \<and>
      ((\<lambda>d'. SineNew_evaluate x a b c d' ! i) has_real_derivative
          SineNew_fit_deriv x a b c d ! 3 ! i) (at d))"
proof (intro conjI allI impI)
  show "SineNew_fit_deriv x a b c d =
     [map (\<lambda>xi. sin (b * xi + c)) x,
      map (\<lambda>xi. a * cos (b * xi + c) * xi) x,
      map (\<lambda>xi. a * cos (b * xi + c)) x,
      map (\<lambda>xi. 1) x]"
    by (simp add: SineNew_fit_deriv_def map_replicate_const)
  show "length (SineNew_fit_deriv x a b c d) = 4"
    by (simp add: SineNew_fit_deriv_def)
next
  fix i assume i: "i < length x"
  show "((\<lambda>a'. SineNew_evaluate x a' b c d ! i) has_real_derivative
          SineNew_fit_deriv x a b c d ! 0 ! i) (at a)"
    using i by (auto simp: SineNew_evaluate_def SineNew_fit_deriv_def intro!: derivative_eq_intros)
  show "((\<lambda>b'. SineNew_evaluate x a b' c d ! i) has_real_derivative
          SineNew_fit_deriv x a b c d ! 1 ! i) (at b)"
    using i by (auto simp: SineNew_evaluate_def SineNew_fit_deriv_def intro!: derivative_eq_intros)
  show "((\<lambda>c'. SineNew_evaluate x a b c' d ! i) has_real_derivative
          SineNew_fit_deriv x a b c d ! 2 ! i) (at c)"
    using i by (auto simp: SineNew_evaluate_def SineNew_fit_deriv_def intro!: derivative_eq_intros)
  show "((\<lambda>d'. SineNew_evaluate x a b c d' ! i) has_real_derivative
          SineNew_fit_deriv x a b c d ! 3 ! i) (at d)"
    using i by (auto simp: SineNew_evaluate_def SineNew_fit_deriv_def intro!: derivative_eq_intros)
qed

theorem SineNew_fit_deriv_partial_derivatives_witness:
  "SineNew_fit_deriv [0, 2] 4 2 4 0 =
     [[sin 4, sin 8], [0, 4 * cos 8 * 2], [4 * cos 4, 4 * cos 8], [1, 1]] \<and>
   ((\<lambda>b'. SineNew_evaluate [0, 2] 4 b' 4 0 ! 1) has_real_derivative 4 * cos 8 * 2) (at 2)"
proof -
  have i: "(1::nat) < length [0, 2 :: real]" by simp
  show ?thesis
    using SineNew_fit_deriv_partial_derivatives [of "[0, 2]" 4 2 4 0, THEN conjunct1]
      SineNew_fit_deriv_partial_derivatives [of "[0, 2]" 4 2 4 0, THEN conjunct2, THEN conjunct2,
        rule_format, OF i, THEN conjunct2, THEN conjunct1]
    by simp
qed

section \<open>Properties of compound models\<close>

lemma param_values_compose:
  "param_values (compose oper childA childB) = param_values childA @ param_values childB"
  by (simp add: param_values_def compose_def rename_param_def comp_def)

lemma shape_compose:
  "shape (compose oper childA childB) (param_values (compose oper childA childB)) v =
     combine oper (shape childA (param_values childA) v) (shape childB (param_values childB) v)"
  unfolding param_values_compose by (simp add: compose_def param_values_def)

text \<open>
  Claim C3. For two models and a combining operator, the compound model evaluated on
  an array is the operator applied element by element to the outputs of the two
  children on that array; \<^verbatim>\<open>Linear(slope=2, intercept=1) + Linear(slope=-1, intercept=0)\<close>
  at \<open>x = 5\<close> gives \<open>6\<close>.
\<close>

theorem compound_evaluate_elementwise:
  "evaluate (compose oper childA childB) x =
     map2 (combine oper) (evaluate childA x) (evaluate childB x) \<and>
   evaluate (compose Add (Linear (Finite 2) (Finite 1)) (Linear (Finite (- 1)) (Finite 0)))
     [Finite 5] = [Finite 6]"
proof
  show "evaluate (compose oper childA childB) x =
     map2 (combine oper) (evaluate childA x) (evaluate childB x)"
    unfolding evaluate_def
    by (rule nth_equalityI) (simp_all add: shape_compose)
  show "evaluate (compose Add (Linear (Finite 2) (Finite 1)) (Linear (Finite (- 1)) (Finite 0)))
     [Finite 5] = [Finite 6]"
    using round64_m5 round64_6 round64_10 round64_11
    by (simp add: evaluate_def compose_def Linear_def param_values_def new_parameter_def
        rename_param_def)
qed

lemma param_names_compose:
  "param_names (compose oper childA childB) =
     map (\<lambda>n. n @ ''_0'') (param_names childA) @ map (\<lambda>n. n @ ''_1'') (param_names childB)"
  by (simp add: param_names_def compose_def rename_param_def comp_def)

text \<open>
  Claim C4. The parameters of a compound model of two children are the parameters of
  the first child followed by those of the second, each name with the suffix \<^verbatim>\<open>_0\<close>
  for the first child and \<^verbatim>\<open>_1\<close> for the second. The names depend only on the names
  of the children: building the compound again, from children with the same
  parameter names, gives the same names.
\<close>

theorem compound_param_names:
  "params (compose oper childA childB) =
     map (\<lambda>p. p\<lparr>pname := pname p @ ''_0''\<rparr>) (params childA) @
     map (\<lambda>p. p\<lparr>pname := pname p @ ''_1''\<rparr>) (params childB) \<and>
   param_names (compose oper childA childB) =
     map (\<lambda>n. n @ ''_0'') (param_names childA) @ map (\<lambda>n. n @ ''_1'') (param_names childB) \<and>
   (param_names childA' = param_names childA \<and> param_names childB' = param_names childB \<longrightarrow>
      param_names (compose oper' childA' childB') = param_names (compose oper childA childB))"
proof (intro conjI impI)
  show "params (compose oper childA childB) =
     map (\<lambda>p. p\<lparr>pname := pname p @ ''_0''\<rparr>) (params childA) @
     map (\<lambda>p. p\<lparr>pname := pname p @ ''_1''\<rparr>) (params childB)"
    by (simp add: compose_def rename_param_def fun_eq_iff)
  show "param_names (compose oper childA childB) =
     map (\<lambda>n. n @ ''_0'') (param_names childA) @ map (\<lambda>n. n @ ''_1'') (param_names childB)"
    by (rule param_names_compose)
  assume "param_names childA' = param_names childA \<and> param_names childB' = param_names childB"
  then show "param_names (compose oper' childA' childB') = param_names (compose oper childA childB)"
    by (simp add: param_names_compose)
qed

theorem compound_param_names_witness:
  "param_names (compose Add (Linear (Finite 2) (Finite 1)) (Linear (Finite (- 1)) (Finite 0))) =
     [''slope_0'', ''intercept_0'', ''slope_1'', ''intercept_1''] \<and>
   param_names (compose Multiply (Linear (Finite 3) (Finite 4)) (Linear (Finite 5) (Finite 6))) =
     param_names (compose Add (Linear (Finite 2) (Finite 1)) (Linear (Finite (- 1)) (Finite 0)))"
proof -
  have n: "param_names (Linear s i) = [''slope'', ''intercept'']" for s i
    by (simp add: param_names_def Linear_def new_parameter_def)
  show ?thesis
    using compound_param_names [of Add "Linear (Finite 2) (Finite 1)"
        "Linear (Finite (- 1)) (Finite 0)" "Linear (Finite 3) (Finite 4)"
        "Linear (Finite 5) (Finite 6)" Multiply]
    by (simp add: n)
qed

end
